theory Spec2Isabelle
  imports Complex_Main "HOL-Library.Stream" "HOL-Library.AList"
begin

section \<open>Data model\<close>

text \<open>
  JavaScript numbers are modelled as exact reals (pixel coordinates, speeds, times in
  milliseconds) and as integers where the code only ever holds integers (tile
  coordinates, path costs).  A pixel point \<open>{x, y}\<close> is a pair of reals, a tile
  \<open>{x, y}\<close> a pair of integers.  The key string \<open>`${x},${y}`\<close> built by \<open>tileKey\<close>
  determines the integer pair and \<open>keyToTile\<close> reads it back, so a key is modelled by
  the pair itself.
\<close>

type_synonym point = "real \<times> real"
type_synonym tile = "int \<times> int"

datatype game_state = SPAWNED | THINKING | PLANNING | CODING | IDLE

datatype direction = DirUp | DirDown | DirLeft | DirRight

datatype zone_type = Workstations | PlanningZones | ThinkingZones | IdleZones

record zone =
  zid :: string
  zx :: real
  zy :: real
  zwidth :: real
  zheight :: real
  centerX :: real
  centerY :: real
  facing :: "string option"

text \<open>The loaded \<open>mapData\<close> object of mapData.js: \<open>map.width\<close>, \<open>map.height\<close> (in tiles),
  \<open>map.tileWidth\<close>, \<open>map.tileHeight\<close>, the collision grid \<open>blocked[y][x]\<close> and the four
  zone lists.  The module variable is \<open>null\<close> until the map is loaded: \<open>None\<close>.\<close>

record map_data =
  map_width :: int
  map_height :: int
  tileWidth :: real
  tileHeight :: real
  unifiedCollisionGrid :: "bool list list"
  workstations :: "zone list"
  planningZones :: "zone list"
  thinkingZones :: "zone list"
  idleZones :: "zone list"

record queued =
  q_state :: game_state
  queuedAt :: real

text \<open>The entity object of \<open>createEntity\<close> (appearance and colour, which no modelled
  function reads or writes, are left out).\<close>

record entity =
  eid :: string
  state :: game_state
  visualState :: "game_state option"
  targetState :: "game_state option"
  ex :: real
  ey :: real
  path :: "point list"
  pathIndex :: nat
  targetZone :: "zone option"
  isMoving :: bool
  direction :: direction
  spawnTime :: real
  currentStateStartTime :: real
  stateQueue :: "queued list"
  animationFrame :: nat
  animationTimer :: real
  wanderZone :: "zone option"
  nextWanderTime :: real
  currentSpeed :: real

text \<open>The ambient mutable state: the two \<open>Map\<close>s of state.js, as association lists in
  insertion order (\<open>AList.update\<close> is \<open>Map.set\<close>, \<open>AList.delete\<close> is \<open>Map.delete\<close>,
  \<open>map_of\<close> is \<open>Map.get\<close>), and the values that the coming calls of \<open>Math.random()\<close>
  return.\<close>

record world =
  zoneAssignments :: "(string \<times> string) list"
  entityZoneMap :: "(string \<times> string) list"
  rng :: "real stream"

section \<open>config.js\<close>

definition MOVE_SPEED :: real where "MOVE_SPEED = 150"
definition MIN_STATE_DISPLAY_MS :: real where "MIN_STATE_DISPLAY_MS = 4000"

section \<open>mapData.js\<close>

definition getMapDimensions :: "map_data option \<Rightarrow> (int \<times> int) option" where
  \<comment> \<open>only \<open>tilesX\<close> and \<open>tilesY\<close> are read by the callers\<close>
  "getMapDimensions md =
     (case md of None \<Rightarrow> None | Some m \<Rightarrow> Some (map_width m, map_height m))"

definition getZonesByType :: "map_data option \<Rightarrow> zone_type \<Rightarrow> zone list" where
  "getZonesByType md ty =
     (case md of
        None \<Rightarrow> []
      | Some m \<Rightarrow>
          (case ty of
             Workstations \<Rightarrow> workstations m
           | PlanningZones \<Rightarrow> planningZones m
           | ThinkingZones \<Rightarrow> thinkingZones m
           | IdleZones \<Rightarrow> idleZones m))"

definition getZonesForState :: "map_data option \<Rightarrow> game_state \<Rightarrow> zone list" where
  "getZonesForState md s =
     (case s of
        CODING \<Rightarrow> getZonesByType md Workstations
      | PLANNING \<Rightarrow> getZonesByType md PlanningZones
      | THINKING \<Rightarrow> getZonesByType md ThinkingZones
      | IDLE \<Rightarrow> getZonesByType md IdleZones
      | SPAWNED \<Rightarrow> [])"


definition random :: "world \<Rightarrow> real \<times> world" where
  \<comment> \<open>\<open>Math.random()\<close>: the next value of the generator\<close>
  "random w = (shd (rng w), w\<lparr>rng := stl (rng w)\<rparr>)"

definition getRandomPointInZone :: "zone \<Rightarrow> real \<Rightarrow> world \<Rightarrow> point \<times> world" where
  "getRandomPointInZone z padding w =
     (let (r1, w1) = random w;
          (r2, w2) = random w1
      in ((zx z + padding + r1 * (zwidth z - padding * 2),
           zy z + padding + r2 * (zheight z - padding * 2)), w2))"

definition isTileWalkable :: "map_data option \<Rightarrow> int \<Rightarrow> int \<Rightarrow> bool" where
  "isTileWalkable md tileX tileY =
     (case md of
        None \<Rightarrow> False
      | Some m \<Rightarrow>
          if tileX < 0 \<or> tileX \<ge> map_width m \<or> tileY < 0 \<or> tileY \<ge> map_height m
          then False
          else \<not> (unifiedCollisionGrid m ! nat tileY ! nat tileX))"

definition pixelToTile :: "map_data option \<Rightarrow> real \<Rightarrow> real \<Rightarrow> tile" where
  "pixelToTile md pixelX pixelY =
     (case md of
        None \<Rightarrow> (0, 0)
      | Some m \<Rightarrow> (\<lfloor>pixelX / tileWidth m\<rfloor>, \<lfloor>pixelY / tileHeight m\<rfloor>))"

definition tileToPixel :: "map_data option \<Rightarrow> int \<Rightarrow> int \<Rightarrow> point" where
  "tileToPixel md tileX tileY =
     (case md of
        None \<Rightarrow> (0, 0)
      | Some m \<Rightarrow>
          (of_int tileX * tileWidth m + tileWidth m / 2,
           of_int tileY * tileHeight m + tileHeight m / 2))"

section \<open>state.js: workstation occupancy\<close>

definition zoneTypeName :: "zone_type \<Rightarrow> string" where
  "zoneTypeName ty =
     (case ty of
        Workstations \<Rightarrow> ''workstations''
      | PlanningZones \<Rightarrow> ''planningZones''
      | ThinkingZones \<Rightarrow> ''thinkingZones''
      | IdleZones \<Rightarrow> ''idleZones'')"

definition assignmentKey :: "string \<Rightarrow> zone_type \<Rightarrow> string" where
  \<comment> \<open>the template string \<open>`${entityId}:${zoneType}`\<close>\<close>
  "assignmentKey entityId ty = entityId @ '':'' @ zoneTypeName ty"

definition getAssignedZone :: "map_data option \<Rightarrow> world \<Rightarrow> string \<Rightarrow> zone_type \<Rightarrow> zone option" where
  \<comment> \<open>\<open>if (!zoneId) return null\<close>: a missing entry and the empty string are both falsy\<close>
  "getAssignedZone md w entityId ty =
     (case map_of (entityZoneMap w) (assignmentKey entityId ty) of
        None \<Rightarrow> None
      | Some zoneId \<Rightarrow>
          if zoneId = [] then None
          else find (\<lambda>z. zid z = zoneId) (getZonesByType md ty))"

definition getEntityWorkstation :: "map_data option \<Rightarrow> world \<Rightarrow> string \<Rightarrow> zone option" where
  "getEntityWorkstation md w entityId = getAssignedZone md w entityId Workstations"

definition assignWorkstation :: "map_data option \<Rightarrow> world \<Rightarrow> string \<Rightarrow> zone option \<times> world" where
  "assignWorkstation md w entityId =
     (case getAssignedZone md w entityId Workstations of
        Some existing \<Rightarrow> (Some existing, w)
      | None \<Rightarrow>
          (case find (\<lambda>ws. map_of (zoneAssignments w) (zid ws) = None)
                  (getZonesByType md Workstations) of
             Some workstation \<Rightarrow>
               (Some workstation,
                w\<lparr>zoneAssignments := AList.update (zid workstation) entityId (zoneAssignments w),
                  entityZoneMap :=
                    AList.update (assignmentKey entityId Workstations) (zid workstation)
                      (entityZoneMap w)\<rparr>)
           | None \<Rightarrow> (None, w)))"

definition releaseWorkstation :: "world \<Rightarrow> string \<Rightarrow> world" where
  \<comment> \<open>\<open>if (zoneId)\<close>: nothing is released for a missing entry or an empty zone id\<close>
  "releaseWorkstation w entityId =
     (case map_of (entityZoneMap w) (assignmentKey entityId Workstations) of
        None \<Rightarrow> w
      | Some zoneId \<Rightarrow>
          if zoneId = [] then w
          else w\<lparr>zoneAssignments := AList.delete zoneId (zoneAssignments w),
                 entityZoneMap :=
                   AList.delete (assignmentKey entityId Workstations) (entityZoneMap w)\<rparr>)"

definition isZoneOccupied :: "world \<Rightarrow> string \<Rightarrow> bool" where
  "isZoneOccupied w zoneId = (map_of (zoneAssignments w) zoneId \<noteq> None)"

definition startsWith :: "string \<Rightarrow> string \<Rightarrow> bool" where
  "startsWith s p = (take (length p) s = p)"

definition clearEntityAssignments :: "world \<Rightarrow> string \<Rightarrow> world" where
  \<comment> \<open>first loop: collect the keys with the prefix and delete their zones' occupants;
      second loop: delete the collected keys\<close>
  "clearEntityAssignments w entityId =
     (let hits = filter (\<lambda>(key, v). startsWith key (entityId @ '':'')) (entityZoneMap w);
          keysToDelete = map fst hits;
          za = foldl (\<lambda>acc (key, v). AList.delete v acc) (zoneAssignments w) hits;
          ezm = foldl (\<lambda>acc key. AList.delete key acc) (entityZoneMap w) keysToDelete
      in w\<lparr>zoneAssignments := za, entityZoneMap := ezm\<rparr>)"

section \<open>pathfinding.js: the binary heap\<close>

text \<open>An entry \<open>{node, priority}\<close> is the pair of the node's tile (its key) and the
  priority.\<close>

record min_heap =
  heap :: "(tile \<times> int) list"
  keyToIndex :: "tile \<rightharpoonup> nat"

definition heap_empty :: min_heap where
  "heap_empty = \<lparr>heap = [], keyToIndex = Map.empty\<rparr>"

definition isEmpty :: "min_heap \<Rightarrow> bool" where
  "isEmpty h = (length (heap h) = 0)"

definition has :: "min_heap \<Rightarrow> tile \<Rightarrow> bool" where
  "has h k = (keyToIndex h k \<noteq> None)"

definition swap :: "min_heap \<Rightarrow> nat \<Rightarrow> nat \<Rightarrow> min_heap" where
  "swap h i j =
     (let hp = (heap h)[i := heap h ! j, j := heap h ! i]
      in h\<lparr>heap := hp,
           keyToIndex := (keyToIndex h)(fst (hp ! i) \<mapsto> i, fst (hp ! j) \<mapsto> j)\<rparr>)"

function bubbleUp :: "min_heap \<Rightarrow> nat \<Rightarrow> min_heap" where
  "bubbleUp h index =
     (if index > 0 then
        (let parentIndex = (index - 1) div 2 in
         if snd (heap h ! parentIndex) \<le> snd (heap h ! index) then h
         else bubbleUp (swap h index parentIndex) parentIndex)
      else h)"
  by pat_completeness auto
termination
  by (relation "measure (\<lambda>(h, index). index)") auto

declare bubbleUp.simps [simp del]

definition smallestOf :: "min_heap \<Rightarrow> nat \<Rightarrow> nat" where
  \<comment> \<open>the two comparisons of \<open>_bubbleDown\<close> that choose \<open>smallest\<close>\<close>
  "smallestOf h index =
     (let len = length (heap h);
          leftChild = 2 * index + 1;
          rightChild = 2 * index + 2;
          s1 = (if leftChild < len \<and> snd (heap h ! leftChild) < snd (heap h ! index)
                then leftChild else index)
      in if rightChild < len \<and> snd (heap h ! rightChild) < snd (heap h ! s1)
         then rightChild else s1)"

lemma length_heap_swap: "length (heap (swap h i j)) = length (heap h)"
  by (simp add: swap_def Let_def)

lemma smallestOf_range:
  "smallestOf h index \<noteq> index \<Longrightarrow>
     index < smallestOf h index \<and> smallestOf h index < length (heap h)"
  by (auto simp: smallestOf_def Let_def split: if_splits)

function bubbleDown :: "min_heap \<Rightarrow> nat \<Rightarrow> min_heap" where
  "bubbleDown h index =
     (let smallest = smallestOf h index in
      if smallest = index then h
      else bubbleDown (swap h index smallest) smallest)"
  by pat_completeness auto
termination
proof (relation "measure (\<lambda>(h, index). length (heap h) - index)")
  show "wf (measure (\<lambda>(h, index). length (heap h) - index))"
    by simp
next
  fix h :: min_heap and index smallest :: nat
  assume "smallest = smallestOf h index" and "smallest \<noteq> index"
  then have "index < smallest \<and> smallest < length (heap h)"
    using smallestOf_range [of h index] by simp
  then show "((swap h index smallest, smallest), (h, index))
      \<in> measure (\<lambda>(h, index). length (heap h) - index)"
    by (auto simp: length_heap_swap)
qed

declare bubbleDown.simps [simp del]

definition heap_insert :: "min_heap \<Rightarrow> tile \<Rightarrow> int \<Rightarrow> min_heap" where
  \<comment> \<open>\<open>MinHeap.insert\<close>\<close>
  "heap_insert h node priority =
     (let hp = heap h @ [(node, priority)];
          index = length hp - 1
      in bubbleUp (h\<lparr>heap := hp, keyToIndex := (keyToIndex h)(node \<mapsto> index)\<rparr>) index)"

definition extractMin :: "min_heap \<Rightarrow> tile option \<times> min_heap" where
  "extractMin h =
     (if isEmpty h then (None, h)
      else
        (let minNode = fst (heap h ! 0);
             k1 = (keyToIndex h)(minNode := None);
             lastEntry = last (heap h);
             popped = butlast (heap h)
         in if popped \<noteq> [] then
              (Some minNode,
               bubbleDown (h\<lparr>heap := popped[0 := lastEntry],
                              keyToIndex := k1(fst lastEntry \<mapsto> 0)\<rparr>) 0)
            else (Some minNode, h\<lparr>heap := popped, keyToIndex := k1\<rparr>)))"

definition decreaseKey :: "min_heap \<Rightarrow> tile \<Rightarrow> int \<Rightarrow> min_heap" where
  "decreaseKey h k newPriority =
     (case keyToIndex h k of
        None \<Rightarrow> h
      | Some index \<Rightarrow>
          bubbleUp (h\<lparr>heap := (heap h)[index := (fst (heap h ! index), newPriority)]\<rparr>) index)"

section \<open>pathfinding.js: the search\<close>

definition heuristic :: "tile \<Rightarrow> tile \<Rightarrow> int" where
  "heuristic a b = \<bar>fst a - fst b\<bar> + \<bar>snd a - snd b\<bar>"

definition ringOffsets :: "int \<Rightarrow> (int \<times> int) list" where
  \<comment> \<open>the two inner loops of \<open>findNearestWalkable\<close>, in their order, perimeter only\<close>
  "ringOffsets radius =
     [(dx, dy). dx \<leftarrow> [- radius..radius], dy \<leftarrow> [- radius..radius],
        \<not> (\<bar>dx\<bar> \<noteq> radius \<and> \<bar>dy\<bar> \<noteq> radius)]"

definition findNearestWalkable :: "map_data option \<Rightarrow> int \<Rightarrow> int \<Rightarrow> int \<Rightarrow> tile option" where
  "findNearestWalkable md tileX tileY maxRadius =
     (if isTileWalkable md tileX tileY then Some (tileX, tileY)
      else
        find (\<lambda>(nx, ny). isTileWalkable md nx ny)
          (concat (map (\<lambda>radius. map (\<lambda>(dx, dy). (tileX + dx, tileY + dy)) (ringOffsets radius))
             [1..maxRadius])))"

partial_function (option) reconstructLoop ::
  "(tile \<rightharpoonup> tile) \<Rightarrow> tile option \<Rightarrow> tile list \<Rightarrow> tile list option" where
  "reconstructLoop cf cur pth =
     (case cur of
        None \<Rightarrow> Some pth
      | Some c \<Rightarrow> reconstructLoop cf (cf c) (c # pth))"

declare reconstructLoop.simps [code]

definition reconstructPath :: "(tile \<rightharpoonup> tile) \<Rightarrow> tile \<Rightarrow> tile list option" where
  \<comment> \<open>\<open>None\<close>: the \<open>while (curr)\<close> loop never ends\<close>
  "reconstructPath cf currentKey = reconstructLoop cf (Some currentKey) []"

record astar =
  openSet :: min_heap
  closedSet :: "tile set"
  cameFrom :: "tile \<rightharpoonup> tile"
  gScore :: "tile \<rightharpoonup> int"
  fScore :: "tile \<rightharpoonup> int"

definition neighbors :: "(int \<times> int) list" where
  "neighbors = [(0, - 1), (0, 1), (- 1, 0), (1, 0)]"

definition relax :: "map_data option \<Rightarrow> tile \<Rightarrow> tile \<Rightarrow> astar \<Rightarrow> int \<times> int \<Rightarrow> astar" where
  \<comment> \<open>the body of the \<open>for\<close> loop over the four neighbours\<close>
  "relax md adjustedGoal current st d =
     (let nx = fst current + fst d;
          ny = snd current + snd d;
          neighborKey = (nx, ny)
      in if neighborKey \<in> closedSet st \<or> \<not> isTileWalkable md nx ny then st
         else
           (let tentativeG = the (gScore st current) + 1 in
            if gScore st neighborKey = None \<or> tentativeG < the (gScore st neighborKey) then
              (let f = tentativeG + heuristic (nx, ny) adjustedGoal;
                   st1 = st\<lparr>cameFrom := (cameFrom st)(neighborKey \<mapsto> current),
                           gScore := (gScore st)(neighborKey \<mapsto> tentativeG),
                           fScore := (fScore st)(neighborKey \<mapsto> f)\<rparr>
               in if \<not> has (openSet st1) neighborKey
                  then st1\<lparr>openSet := heap_insert (openSet st1) (nx, ny) f\<rparr>
                  else st1\<lparr>openSet := decreaseKey (openSet st1) neighborKey f\<rparr>)
            else st))"

function searchLoop ::
  "map_data option \<Rightarrow> tile \<Rightarrow> int \<Rightarrow> astar \<Rightarrow> int \<Rightarrow> tile list option option" where
  "searchLoop md adjustedGoal maxIterations st iterations =
     (if \<not> isEmpty (openSet st) \<and> iterations < maxIterations then
        (case extractMin (openSet st) of
           (None, os) \<Rightarrow> Some None
         | (Some current, os) \<Rightarrow>
             if current = adjustedGoal
             then map_option Some (reconstructPath (cameFrom st) current)
             else
               searchLoop md adjustedGoal maxIterations
                 (foldl (relax md adjustedGoal current)
                    (st\<lparr>openSet := os, closedSet := insert current (closedSet st)\<rparr>)
                    neighbors)
                 (iterations + 1))
      else Some None)"
  by pat_completeness auto
termination
  by (relation "measure (\<lambda>(md, g, maxIt, st, it). nat (maxIt - it))") auto

declare searchLoop.simps [simp del]

definition findTilePath :: "map_data option \<Rightarrow> tile \<Rightarrow> tile \<Rightarrow> tile list option option" where
  \<comment> \<open>outer \<open>None\<close>: the call does not return; \<open>Some None\<close>: it returns \<open>null\<close>\<close>
  "findTilePath md start goal =
     (case getMapDimensions md of
        None \<Rightarrow> Some None
      | Some (tilesX, tilesY) \<Rightarrow>
          (case (if \<not> isTileWalkable md (fst goal) (snd goal)
                 then findNearestWalkable md (fst goal) (snd goal) 5 else Some goal) of
             None \<Rightarrow> Some None
           | Some adjustedGoal \<Rightarrow>
               (case (if \<not> isTileWalkable md (fst start) (snd start)
                      then findNearestWalkable md (fst start) (snd start) 5 else Some start) of
                  None \<Rightarrow> Some None
                | Some adjustedStart \<Rightarrow>
                    if adjustedStart = adjustedGoal then Some (Some [adjustedGoal])
                    else
                      (let startKey = adjustedStart;
                           f0 = heuristic adjustedStart adjustedGoal;
                           st = \<lparr>openSet = heap_insert heap_empty adjustedStart f0,
                                 closedSet = {},
                                 cameFrom = Map.empty,
                                 gScore = [startKey \<mapsto> 0],
                                 fScore = [startKey \<mapsto> f0]\<rparr>
                       in searchLoop md adjustedGoal (tilesX * tilesY * 2) st 0))))"

definition findPath ::
  "map_data option \<Rightarrow> real \<Rightarrow> real \<Rightarrow> real \<Rightarrow> real \<Rightarrow> point list option option" where
  "findPath md startX startY goalX goalY =
     (case findTilePath md (pixelToTile md startX startY) (pixelToTile md goalX goalY) of
        None \<Rightarrow> None
      | Some None \<Rightarrow> Some None
      | Some (Some tilePath) \<Rightarrow>
          Some (Some (map (\<lambda>t. tileToPixel md (fst t) (snd t)) tilePath)))"

section \<open>pathfinding.js: smoothing\<close>

partial_function (option) lineLoop ::
  "int \<Rightarrow> int \<Rightarrow> int \<Rightarrow> int \<Rightarrow> int \<Rightarrow> int \<Rightarrow> int \<Rightarrow> int \<Rightarrow> int \<Rightarrow> tile list \<Rightarrow> tile list option"
  where
  "lineLoop x1 y1 dx dy sx sy x y err tiles =
     (if x = x1 \<and> y = y1 then Some (tiles @ [(x, y)])
      else
        lineLoop x1 y1 dx dy sx sy
          (if 2 * err > - dy then x + sx else x)
          (if 2 * err < dx then y + sy else y)
          ((if 2 * err > - dy then err - dy else err) + (if 2 * err < dx then dx else 0))
          (tiles @ [(x, y)]))"

declare lineLoop.simps [code]

definition getLineTiles :: "int \<Rightarrow> int \<Rightarrow> int \<Rightarrow> int \<Rightarrow> tile list option" where
  \<comment> \<open>\<open>None\<close>: the \<open>while (true)\<close> loop never reaches its \<open>break\<close>\<close>
  "getLineTiles x0 y0 x1 y1 =
     lineLoop x1 y1 \<bar>x1 - x0\<bar> \<bar>y1 - y0\<bar> (if x0 < x1 then 1 else - 1) (if y0 < y1 then 1 else - 1)
       x0 y0 (\<bar>x1 - x0\<bar> - \<bar>y1 - y0\<bar>) []"

definition hasLineOfSight :: "map_data option \<Rightarrow> point \<Rightarrow> point \<Rightarrow> bool option" where
  "hasLineOfSight md fromP toP =
     (let fromTile = pixelToTile md (fst fromP) (snd fromP);
          toTile = pixelToTile md (fst toP) (snd toP)
      in map_option (list_all (\<lambda>t. isTileWalkable md (fst t) (snd t)))
           (getLineTiles (fst fromTile) (snd fromTile) (fst toTile) (snd toTile)))"

function findFurthest ::
  "map_data option \<Rightarrow> point list \<Rightarrow> nat \<Rightarrow> nat \<Rightarrow> nat \<Rightarrow> nat option" where
  \<comment> \<open>the inner \<open>for\<close> loop of \<open>smoothPath\<close>, from index \<open>i\<close> on\<close>
  "findFurthest md pth current i furthest =
     (if i < length pth then
        (case hasLineOfSight md (pth ! current) (pth ! i) of
           None \<Rightarrow> None
         | Some los \<Rightarrow> findFurthest md pth current (i + 1) (if los then i else furthest))
      else Some furthest)"
  by pat_completeness auto
termination
  by (relation "measure (\<lambda>(md, pth, current, i, furthest). length pth - i)") auto

lemma findFurthest_range:
  "findFurthest md pth current i furthest = Some r \<Longrightarrow>
     r = furthest \<or> (i \<le> r \<and> r < length pth)"
proof (induction md pth current i furthest rule: findFurthest.induct)
  case (1 md pth current i furthest)
  show ?case
  proof (cases "i < length pth")
    case False
    with "1.prems" show ?thesis by simp
  next
    case True
    with "1.prems" obtain los where
      los: "hasLineOfSight md (pth ! current) (pth ! i) = Some los" and
      rec: "findFurthest md pth current (i + 1) (if los then i else furthest) = Some r"
      by (auto split: option.splits)
    from "1.IH" [OF True los rec] True show ?thesis
      by (auto split: if_splits)
  qed
qed

function smoothLoop ::
  "map_data option \<Rightarrow> point list \<Rightarrow> nat \<Rightarrow> point list \<Rightarrow> point list option" where
  \<comment> \<open>the outer \<open>while\<close> loop of \<open>smoothPath\<close>\<close>
  "smoothLoop md pth current smoothed =
     (if current < length pth - 1 then
        (case findFurthest md pth current (current + 2) (current + 1) of
           None \<Rightarrow> None
         | Some furthest \<Rightarrow> smoothLoop md pth furthest (smoothed @ [pth ! furthest]))
      else Some smoothed)"
  by pat_completeness auto
termination
proof (relation "measure (\<lambda>(md, pth, current, smoothed). length pth - current)")
  show "wf (measure (\<lambda>(md, pth, current, smoothed). length pth - current))"
    by simp
next
  fix md :: "map_data option" and pth smoothed :: "point list" and current furthest :: nat
  assume c: "current < length pth - 1"
    and f: "findFurthest md pth current (current + 2) (current + 1) = Some furthest"
  from findFurthest_range [OF f] c
  have "current < furthest \<and> furthest < length pth"
    by auto
  then show "((md, pth, furthest, smoothed @ [pth ! furthest]), (md, pth, current, smoothed))
      \<in> measure (\<lambda>(md, pth, current, smoothed). length pth - current)"
    by auto
qed

declare findFurthest.simps [simp del] smoothLoop.simps [simp del]

definition smoothPath :: "map_data option \<Rightarrow> point list \<Rightarrow> point list option" where
  \<comment> \<open>\<open>None\<close>: the call does not return\<close>
  "smoothPath md pth =
     (if length pth < 3 then Some pth
      else smoothLoop md pth 0 [pth ! 0])"



section \<open>entities: the state queue, arrival and wandering\<close>

text \<open>\<open>Date.now()\<close> is a parameter of each function that calls it, one per call.\<close>

definition randomIndex :: "real \<Rightarrow> 'a list \<Rightarrow> nat" where
  \<comment> \<open>\<open>Math.floor(Math.random() * zones.length)\<close>\<close>
  "randomIndex r zones = nat \<lfloor>r * real (length zones)\<rfloor>"


fun collapseQueue :: "queued list \<Rightarrow> queued list" where
  \<comment> \<open>\<open>while (queue.length > 1 && queue[0].state === queue[1].state) queue.shift()\<close>\<close>
  "collapseQueue (a # b # q) =
     (if q_state a = q_state b then collapseQueue (b # q) else a # b # q)"
| "collapseQueue q = q"

definition getTargetZone ::
  "map_data option \<Rightarrow> world \<Rightarrow> entity \<Rightarrow> game_state \<Rightarrow> zone option \<times> world" where
  "getTargetZone md w e s =
     (if s = CODING then
        (case getEntityWorkstation md w (eid e) of
           Some existingWorkstation \<Rightarrow> (Some existingWorkstation, w)
         | None \<Rightarrow> assignWorkstation md w (eid e))
      else
        (let zones = getZonesForState md s in
         if length zones = 0 then (None, w)
         else if s = THINKING \<or> s = IDLE then
           (let (r, w1) = random w;
                z = zones ! randomIndex r zones;
                (randomPoint, w2) = getRandomPointInZone z 8 w1
            in (Some (z\<lparr>centerX := fst randomPoint, centerY := snd randomPoint\<rparr>), w2))
         else
           (let (r, w1) = random w
            in (Some (zones ! randomIndex r zones), w1))))"

definition withExactTarget :: "point list \<Rightarrow> point \<Rightarrow> point list" where
  \<comment> \<open>\<open>if (lastWaypoint.x !== t.x || lastWaypoint.y !== t.y) path.push(t)\<close>\<close>
  "withExactTarget pth t = (if fst (last pth) \<noteq> fst t \<or> snd (last pth) \<noteq> snd t then pth @ [t] else pth)"

definition processStateQueue ::
  "map_data option \<Rightarrow> real \<Rightarrow> world \<Rightarrow> entity \<Rightarrow> (world \<times> entity) option" where
  \<comment> \<open>\<open>None\<close>: the call does not return\<close>
  "processStateQueue md now w e =
     (if isMoving e then Some (w, e)
      else if currentStateStartTime e \<noteq> 0
              \<and> now - currentStateStartTime e < MIN_STATE_DISPLAY_MS
              \<and> length (stateQueue e) > 0 then Some (w, e)
      else if length (stateQueue e) = 0 then Some (w, e)
      else
        (let q = collapseQueue (stateQueue e);
             nextStateInfo = hd q;
             e1 = e\<lparr>stateQueue := tl q\<rparr>;
             nextState = q_state nextStateInfo
         in if Some nextState = visualState e1 \<and> \<not> isMoving e1 then Some (w, e1)
            else
              (let w1 = (if visualState e1 = Some CODING \<and> nextState \<noteq> CODING
                         then releaseWorkstation w (eid e1) else w)
               in case getTargetZone md w1 e1 nextState of
                    (None, w2) \<Rightarrow>
                      Some (w2, e1\<lparr>stateQueue := nextStateInfo # stateQueue e1\<rparr>)
                  | (Some tz, w2) \<Rightarrow>
                      (case findPath md (ex e1) (ey e1) (centerX tz) (centerY tz) of
                         None \<Rightarrow> None
                       | Some found \<Rightarrow>
                           (case (case found of
                                    None \<Rightarrow> Some [(centerX tz, centerY tz)]
                                  | Some pth \<Rightarrow>
                                      if length pth = 0 then Some [(centerX tz, centerY tz)]
                                      else map_option
                                             (\<lambda>sp. withExactTarget sp (centerX tz, centerY tz))
                                             (smoothPath md pth)) of
                              None \<Rightarrow> None
                            | Some newPath \<Rightarrow>
                                Some (w2, e1\<lparr>path := newPath,
                                            pathIndex := 0,
                                            targetState := Some nextState,
                                            targetZone := Some tz,
                                            isMoving := True,
                                            currentSpeed := MOVE_SPEED\<rparr>))))))"







section \<open>The rasterised line and the smoothing loops return\<close>

lemma lineLoop_total_aux:
  fixes dx dy sx sy x1 y1 :: int
  assumes d: "0 \<le> dx" "0 \<le> dy" and s: "sx = 1 \<or> sx = - 1" "sy = 1 \<or> sy = - 1"
  shows "nat (sx * (x1 - x) + sy * (y1 - y)) = n \<Longrightarrow>
         0 \<le> sx * (x1 - x) \<Longrightarrow> sx * (x1 - x) \<le> dx \<Longrightarrow>
         0 \<le> sy * (y1 - y) \<Longrightarrow> sy * (y1 - y) \<le> dy \<Longrightarrow>
         err = dx - dy - dx * (sy * (y1 - y)) + dy * (sx * (x1 - x)) \<Longrightarrow>
         \<exists>r. lineLoop x1 y1 dx dy sx sy x y err tiles = Some r"
proof (induction n arbitrary: x y err tiles rule: less_induct)
  case (less n)
  define rx where "rx = sx * (x1 - x)"
  define ry where "ry = sy * (y1 - y)"
  note rs = rx_def [symmetric] ry_def [symmetric]
  from less.prems have rng: "0 \<le> rx" "rx \<le> dx" "0 \<le> ry" "ry \<le> dy"
    and err: "err = dx - dy - dx * ry + dy * rx" and n: "nat (rx + ry) = n"
    by (simp_all add: rs)
  show ?case
  proof (cases "x = x1 \<and> y = y1")
    case True
    then show ?thesis by (subst lineLoop.simps) simp
  next
    case False
    with s have pos: "0 < rx \<or> 0 < ry"
      using rng by (auto simp: rx_def ry_def)
    let ?stepx = "2 * err > - dy"
    let ?stepy = "2 * err < dx"
    let ?x' = "if ?stepx then x + sx else x"
    let ?y' = "if ?stepy then y + sy else y"
    let ?err' = "(if ?stepx then err - dy else err) + (if ?stepy then dx else 0)"
    have sx2: "sx * sx = 1" and sy2: "sy * sy = 1" using s by auto
    have rx': "sx * (x1 - ?x') = (if ?stepx then rx - 1 else rx)"
      by (simp add: rx_def algebra_simps sx2)
    have ry': "sy * (y1 - ?y') = (if ?stepy then ry - 1 else ry)"
      by (simp add: ry_def algebra_simps sy2)
    have nox: "\<not> ?stepx" if "rx = 0"
    proof -
      from that pos have "1 \<le> ry" by simp
      then have "dx * 1 \<le> dx * ry" using d(1) by (intro mult_left_mono) auto
      with err that d show ?thesis by simp
    qed
    have noy: "\<not> ?stepy" if "ry = 0"
    proof -
      from that pos have "1 \<le> rx" by simp
      then have "dy * 1 \<le> dy * rx" using d(2) by (intro mult_left_mono) auto
      with err that d show ?thesis by simp
    qed
    have posx: "1 \<le> rx" if "?stepx" using nox that rng(1) by (cases "rx = 0") auto
    have posy: "1 \<le> ry" if "?stepy" using noy that rng(3) by (cases "ry = 0") auto
    have some: "?stepx \<or> ?stepy"
    proof (rule ccontr)
      assume "\<not> (?stepx \<or> ?stepy)"
      then have "dx \<le> - dy" by simp
      with d have "dx = 0" "dy = 0" by simp_all
      with rng pos show False by simp
    qed
    have m: "nat (sx * (x1 - ?x') + sy * (y1 - ?y')) < n"
      unfolding rx' ry' using some n rng posx posy by (auto split: if_splits)
    have b1: "0 \<le> sx * (x1 - ?x')" "sx * (x1 - ?x') \<le> dx"
      unfolding rx' using rng posx by (auto split: if_splits)
    have b2: "0 \<le> sy * (y1 - ?y')" "sy * (y1 - ?y') \<le> dy"
      unfolding ry' using rng posy by (auto split: if_splits)
    have e: "?err' = dx - dy - dx * (sy * (y1 - ?y')) + dy * (sx * (x1 - ?x'))"
      unfolding rx' ry' using err by (simp add: algebra_simps)
    from less.IH [OF m refl b1 b2 e]
    obtain r where "lineLoop x1 y1 dx dy sx sy ?x' ?y' ?err' (tiles @ [(x, y)]) = Some r"
      by blast
    with False show ?thesis
      by (subst lineLoop.simps) simp
  qed
qed

lemma getLineTiles_total: "\<exists>r. getLineTiles x0 y0 x1 y1 = Some r"
  unfolding getLineTiles_def
  by (rule lineLoop_total_aux [OF _ _ _ _ refl]) (auto simp: algebra_simps)


lemma hasLineOfSight_total: "\<exists>b. hasLineOfSight md p q = Some b"
proof -
  obtain ts where
    "getLineTiles (fst (pixelToTile md (fst p) (snd p))) (snd (pixelToTile md (fst p) (snd p)))
       (fst (pixelToTile md (fst q) (snd q))) (snd (pixelToTile md (fst q) (snd q))) = Some ts"
    using getLineTiles_total by blast
  then show ?thesis by (simp add: hasLineOfSight_def Let_def)
qed

lemma findFurthest_total: "\<exists>r. findFurthest md pth c i f = Some r"
proof (induction md pth c i f rule: findFurthest.induct)
  case (1 md pth c i f)
  show ?case
  proof (cases "i < length pth")
    case False
    then show ?thesis by (subst findFurthest.simps) simp
  next
    case True
    obtain b where b: "hasLineOfSight md (pth ! c) (pth ! i) = Some b"
      using hasLineOfSight_total by blast
    from "1.IH" [OF True b] True b show ?thesis by (subst findFurthest.simps) simp
  qed
qed

lemma findFurthest_los:
  "findFurthest md pth c i f = Some r \<Longrightarrow>
     r = f \<or> (i \<le> r \<and> r < length pth \<and> hasLineOfSight md (pth ! c) (pth ! r) = Some True)"
proof (induction md pth c i f rule: findFurthest.induct)
  case (1 md pth c i f)
  show ?case
  proof (cases "i < length pth")
    case False
    from "1.prems" have "(if i < length pth then
        (case hasLineOfSight md (pth ! c) (pth ! i) of
           None \<Rightarrow> None
         | Some los \<Rightarrow> findFurthest md pth c (i + 1) (if los then i else f))
      else Some f) = Some r"
      by (subst (asm) findFurthest.simps)
    with False show ?thesis by simp
  next
    case True
    from "1.prems" have "(if i < length pth then
        (case hasLineOfSight md (pth ! c) (pth ! i) of
           None \<Rightarrow> None
         | Some los \<Rightarrow> findFurthest md pth c (i + 1) (if los then i else f))
      else Some f) = Some r"
      by (subst (asm) findFurthest.simps)
    with True obtain b where
      b: "hasLineOfSight md (pth ! c) (pth ! i) = Some b" and
      rec: "findFurthest md pth c (i + 1) (if b then i else f) = Some r"
      by (cases "hasLineOfSight md (pth ! c) (pth ! i)") simp_all
    from "1.IH" [OF True b rec] True b show ?thesis
      by (auto split: if_splits)
  qed
qed

definition clearLine :: "map_data option \<Rightarrow> point \<Rightarrow> point \<Rightarrow> bool" where
  "clearLine md p q = (hasLineOfSight md p q = Some True)"

lemma smoothLoop_props:
  "\<forall>i. Suc i < length pth \<longrightarrow> clearLine md (pth ! i) (pth ! Suc i) \<Longrightarrow>
     current < length pth \<Longrightarrow> smoothed \<noteq> [] \<Longrightarrow> last smoothed = pth ! current \<Longrightarrow>
     successively (clearLine md) smoothed \<Longrightarrow> length smoothed \<le> Suc current \<Longrightarrow>
     \<exists>sp. smoothLoop md pth current smoothed = Some sp \<and> hd sp = hd smoothed
       \<and> last sp = last pth \<and> successively (clearLine md) sp \<and> length sp \<le> length pth \<and> sp \<noteq> []"
proof (induction md pth current smoothed rule: smoothLoop.induct)
  case (1 md pth current smoothed)
  note adj = "1.prems"(1) and cur = "1.prems"(2) and ne = "1.prems"(3)
    and lst = "1.prems"(4) and suc = "1.prems"(5) and len = "1.prems"(6)
  show ?case
  proof (cases "current < length pth - 1")
    case False
    with cur have c: "current = length pth - 1" by simp
    from cur have "pth \<noteq> []" by auto
    with c lst have "last smoothed = last pth"
      by (simp add: last_conv_nth)
    with False ne suc len c cur show ?thesis by (subst smoothLoop.simps) simp
  next
    case True
    obtain f where f: "findFurthest md pth current (current + 2) (current + 1) = Some f"
      using findFurthest_total by blast
    from findFurthest_los [OF f] True adj
    have fr: "current < f" "f < length pth" "clearLine md (pth ! current) (pth ! f)"
      by (auto simp: clearLine_def)
    have s: "successively (clearLine md) (smoothed @ [pth ! f])"
      using ne lst suc fr(3) by (simp add: successively_append_iff)
    have "\<exists>sp. smoothLoop md pth f (smoothed @ [pth ! f]) = Some sp
       \<and> hd sp = hd (smoothed @ [pth ! f]) \<and> last sp = last pth
       \<and> successively (clearLine md) sp \<and> length sp \<le> length pth \<and> sp \<noteq> []"
      using len fr(1)
      by (intro "1.IH" [OF True f adj fr(2) _ _ s]) auto
    with True f ne show ?thesis by (subst smoothLoop.simps) simp
  qed
qed


definition adjacent4 :: "tile \<Rightarrow> tile \<Rightarrow> bool" where
  "adjacent4 a b = (\<bar>fst a - fst b\<bar> + \<bar>snd a - snd b\<bar> = 1)"

lemma getLineTiles_adjacent:
  assumes "adjacent4 (x0, y0) (x1, y1)"
  shows "getLineTiles x0 y0 x1 y1 = Some [(x0, y0), (x1, y1)]"
proof -
  from assms have "\<bar>x0 - x1\<bar> + \<bar>y0 - y1\<bar> = 1"
    by (simp add: adjacent4_def)
  then have "(x1 = x0 + 1 \<and> y1 = y0) \<or> (x1 = x0 - 1 \<and> y1 = y0)
    \<or> (x1 = x0 \<and> y1 = y0 + 1) \<or> (x1 = x0 \<and> y1 = y0 - 1)"
    by arith
  then consider
      "x1 = x0 + 1" "y1 = y0" | "x1 = x0 - 1" "y1 = y0"
    | "x1 = x0" "y1 = y0 + 1" | "x1 = x0" "y1 = y0 - 1"
    by blast
  then show ?thesis
  proof cases
    case 1
    then show ?thesis
      unfolding getLineTiles_def
      by (subst lineLoop.simps, simp, subst lineLoop.simps, simp)
  next
    case 2
    then show ?thesis
      unfolding getLineTiles_def
      by (subst lineLoop.simps, simp, subst lineLoop.simps, simp)
  next
    case 3
    then show ?thesis
      unfolding getLineTiles_def
      by (subst lineLoop.simps, simp, subst lineLoop.simps, simp)
  next
    case 4
    then show ?thesis
      unfolding getLineTiles_def
      by (subst lineLoop.simps, simp, subst lineLoop.simps, simp)
  qed
qed

lemma pixelToTile_tileToPixel:
  assumes "0 < tileWidth m" "0 < tileHeight m"
  shows "pixelToTile (Some m) (fst (tileToPixel (Some m) tx ty)) (snd (tileToPixel (Some m) tx ty))
           = (tx, ty)"
proof -
  have "\<lfloor>(of_int t * w + w / 2) / w\<rfloor> = t" if "0 < w" for t :: int and w :: real
  proof -
    from that have "(of_int t * w + w / 2) / w = of_int t + 1 / 2"
      by (simp add: field_simps)
    then show ?thesis by (simp add: floor_unique)
  qed
  with assms show ?thesis
    by (simp add: pixelToTile_def tileToPixel_def)
qed

lemma clearLine_adjacent:
  assumes "0 < tileWidth m" "0 < tileHeight m" "adjacent4 a b"
    "isTileWalkable (Some m) (fst a) (snd a)" "isTileWalkable (Some m) (fst b) (snd b)"
  shows "clearLine (Some m) (tileToPixel (Some m) (fst a) (snd a))
           (tileToPixel (Some m) (fst b) (snd b))"
  using assms getLineTiles_adjacent [of "fst a" "snd a" "fst b" "snd b"]
  by (simp add: clearLine_def hasLineOfSight_def Let_def pixelToTile_tileToPixel)

definition tileCenters :: "map_data option \<Rightarrow> tile list \<Rightarrow> point list" where
  "tileCenters md ts = map (\<lambda>t. tileToPixel md (fst t) (snd t)) ts"


section \<open>The search returns\<close>

definition chainInv :: "astar \<Rightarrow> bool" where
  "chainInv st = (finite (closedSet st) \<and>
     (\<forall>v p. cameFrom st v = Some p \<longrightarrow>
        p \<in> closedSet st \<and> the (gScore st v) = the (gScore st p) + 1))"

lemma reconstructLoop_total:
  assumes fin: "finite C"
    and ch: "\<And>v p. cf v = Some p \<Longrightarrow> p \<in> C \<and> G v = G p + (1::int)"
  shows "\<exists>r. reconstructLoop cf (Some c) pth = Some r"
proof (induction "card {q \<in> C. G q < G c}" arbitrary: c pth rule: less_induct)
  case less
  show ?case
  proof (cases "cf c")
    case None
    then show ?thesis
      by (subst reconstructLoop.simps, simp, subst reconstructLoop.simps, simp)
  next
    case (Some p)
    from ch [OF Some] have p: "p \<in> C" "G c = G p + 1" by simp_all
    have "{q \<in> C. G q < G p} \<subset> {q \<in> C. G q < G c}"
      using p by auto
    then have "card {q \<in> C. G q < G p} < card {q \<in> C. G q < G c}"
      using fin by (intro psubset_card_mono) auto
    from less [OF this] obtain r where "reconstructLoop cf (Some p) (c # pth) = Some r"
      by blast
    with Some show ?thesis
      by (subst reconstructLoop.simps) simp
  qed
qed

lemma chainInvD:
  "chainInv st \<Longrightarrow> cameFrom st v = Some p \<Longrightarrow>
     p \<in> closedSet st \<and> the (gScore st v) = the (gScore st p) + 1"
  unfolding chainInv_def by blast

lemma relax_cases:
  "relax md goal current st d = st \<or>
   (\<exists>n f os. n \<notin> closedSet st \<and>
      relax md goal current st d =
        st\<lparr>cameFrom := (cameFrom st)(n \<mapsto> current),
           gScore := (gScore st)(n \<mapsto> the (gScore st current) + 1),
           fScore := (fScore st)(n \<mapsto> f),
           openSet := os\<rparr>)"
proof -
  let ?n = "(fst current + fst d, snd current + snd d)"
  let ?g = "the (gScore st current) + 1"
  show ?thesis
  proof (cases "?n \<in> closedSet st \<or> \<not> isTileWalkable md (fst ?n) (snd ?n)")
    case True
    then have "relax md goal current st d = st"
      by (simp add: relax_def Let_def)
    then show ?thesis ..
  next
    case False
    show ?thesis
    proof (cases "gScore st ?n = None \<or> ?g < the (gScore st ?n)")
      case imp: False
      with False have "relax md goal current st d = st"
        by (auto simp: relax_def Let_def)
      then show ?thesis ..
    next
      case imp: True
      let ?f = "?g + heuristic ?n goal"
      let ?st1 = "st\<lparr>cameFrom := (cameFrom st)(?n \<mapsto> current),
                     gScore := (gScore st)(?n \<mapsto> ?g),
                     fScore := (fScore st)(?n \<mapsto> ?f)\<rparr>"
      let ?os = "if \<not> has (openSet st) ?n then heap_insert (openSet st) ?n ?f
                 else decreaseKey (openSet st) ?n ?f"
      from False imp have "relax md goal current st d = ?st1\<lparr>openSet := ?os\<rparr>"
        unfolding relax_def Let_def by (simp split del: if_split) simp
      moreover from False have "?n \<notin> closedSet st" by simp
      ultimately show ?thesis by (intro disjI2 exI [of _ ?n] exI [of _ ?f] exI [of _ ?os]) simp
    qed
  qed
qed

lemma chainInv_relax:
  assumes inv: "chainInv st" and cur: "current \<in> closedSet st"
  shows "chainInv (relax md goal current st d) \<and> closedSet (relax md goal current st d) = closedSet st"
proof -
  from relax_cases [of md goal current st d]
  show ?thesis
  proof
    assume "relax md goal current st d = st"
    with inv show ?thesis by simp
  next
    assume "\<exists>n f os. n \<notin> closedSet st \<and>
      relax md goal current st d =
        st\<lparr>cameFrom := (cameFrom st)(n \<mapsto> current),
           gScore := (gScore st)(n \<mapsto> the (gScore st current) + 1),
           fScore := (fScore st)(n \<mapsto> f),
           openSet := os\<rparr>"
    then obtain n f os where n: "n \<notin> closedSet st" and
      r: "relax md goal current st d =
        st\<lparr>cameFrom := (cameFrom st)(n \<mapsto> current),
           gScore := (gScore st)(n \<mapsto> the (gScore st current) + 1),
           fScore := (fScore st)(n \<mapsto> f),
           openSet := os\<rparr>"
      by blast
    from n cur have ne: "n \<noteq> current" by blast
    have "chainInv (relax md goal current st d)"
      unfolding r chainInv_def
    proof (intro conjI allI impI)
      show "finite (closedSet (st\<lparr>cameFrom := (cameFrom st)(n \<mapsto> current),
           gScore := (gScore st)(n \<mapsto> the (gScore st current) + 1),
           fScore := (fScore st)(n \<mapsto> f), openSet := os\<rparr>))"
        using inv by (simp add: chainInv_def)
    next
      fix v p
      assume a: "cameFrom (st\<lparr>cameFrom := (cameFrom st)(n \<mapsto> current),
           gScore := (gScore st)(n \<mapsto> the (gScore st current) + 1),
           fScore := (fScore st)(n \<mapsto> f), openSet := os\<rparr>) v = Some p"
      show "p \<in> closedSet (st\<lparr>cameFrom := (cameFrom st)(n \<mapsto> current),
           gScore := (gScore st)(n \<mapsto> the (gScore st current) + 1),
           fScore := (fScore st)(n \<mapsto> f), openSet := os\<rparr>)"
      proof (cases "v = n")
        case True
        with a cur show ?thesis by simp
      next
        case False
        with a have "cameFrom st v = Some p" by simp
        from chainInvD [OF inv this] show ?thesis by simp
      qed
      show "the (gScore (st\<lparr>cameFrom := (cameFrom st)(n \<mapsto> current),
           gScore := (gScore st)(n \<mapsto> the (gScore st current) + 1),
           fScore := (fScore st)(n \<mapsto> f), openSet := os\<rparr>) v) =
         the (gScore (st\<lparr>cameFrom := (cameFrom st)(n \<mapsto> current),
           gScore := (gScore st)(n \<mapsto> the (gScore st current) + 1),
           fScore := (fScore st)(n \<mapsto> f), openSet := os\<rparr>) p) + 1"
      proof (cases "v = n")
        case True
        with a have "p = current" by simp
        with True ne show ?thesis by simp
      next
        case False
        with a have c: "cameFrom st v = Some p" by simp
        from chainInvD [OF inv c]
        have "p \<in> closedSet st" "the (gScore st v) = the (gScore st p) + 1"
          by simp_all
        with n False show ?thesis by auto
      qed
    qed
    then show ?thesis by (simp add: r)
  qed
qed

lemma chainInv_foldl_relax:
  "chainInv st \<Longrightarrow> current \<in> closedSet st \<Longrightarrow>
     chainInv (foldl (relax md goal current) st ds)
     \<and> closedSet (foldl (relax md goal current) st ds) = closedSet st"
proof (induction ds arbitrary: st)
  case Nil
  then show ?case by simp
next
  case (Cons d ds)
  from chainInv_relax [OF Cons.prems, of md goal d] Cons.IH [of "relax md goal current st d"]
    Cons.prems
  show ?case by simp
qed

lemma searchLoop_total:
  "chainInv st \<Longrightarrow> \<exists>r. searchLoop md goal maxIt st it = Some r"
proof (induction md goal maxIt st it rule: searchLoop.induct)
  case (1 md goal maxIt st it)
  show ?case
  proof (cases "\<not> isEmpty (openSet st) \<and> it < maxIt")
    case False
    then show ?thesis by (subst searchLoop.simps) auto
  next
    case True
    obtain cur os where ex: "extractMin (openSet st) = (cur, os)"
      by (cases "extractMin (openSet st)")
    show ?thesis
    proof (cases cur)
      case None
      with True ex show ?thesis by (subst searchLoop.simps) simp
    next
      case (Some current)
      show ?thesis
      proof (cases "current = goal")
        case g: True
        from "1.prems" obtain r where "reconstructPath (cameFrom st) current = Some r"
          unfolding reconstructPath_def chainInv_def
          using reconstructLoop_total [of "closedSet st" "cameFrom st" "\<lambda>v. the (gScore st v)"]
          by blast
        with True ex Some g show ?thesis by (subst searchLoop.simps) simp
      next
        case ng: False
        let ?st1 = "st\<lparr>openSet := os, closedSet := insert current (closedSet st)\<rparr>"
        have "chainInv ?st1" using "1.prems" by (auto simp: chainInv_def)
        then have "chainInv (foldl (relax md goal current) ?st1 neighbors)"
          using chainInv_foldl_relax [of ?st1 current md goal neighbors] by simp
        from "1.IH" [OF True ex [symmetric] Some ng this]
        show ?thesis using True ex Some ng by (subst searchLoop.simps) simp
      qed
    qed
  qed
qed

lemma findTilePath_total: "\<exists>r. findTilePath md start goal = Some r"
proof -
  have inv: "chainInv \<lparr>openSet = h, closedSet = {}, cameFrom = Map.empty, gScore = g, fScore = f\<rparr>"
    for h g f by (simp add: chainInv_def)
  show ?thesis
  proof (cases "getMapDimensions md")
    case None
    then show ?thesis by (simp add: findTilePath_def)
  next
    case (Some dims)
    obtain tilesX tilesY where dims: "dims = (tilesX, tilesY)" by (cases dims)
    let ?ag = "if \<not> isTileWalkable md (fst goal) (snd goal)
                 then findNearestWalkable md (fst goal) (snd goal) 5 else Some goal"
    let ?as = "if \<not> isTileWalkable md (fst start) (snd start)
                 then findNearestWalkable md (fst start) (snd start) 5 else Some start"
    show ?thesis
    proof (cases ?ag)
      case None
      with Some dims show ?thesis by (simp add: findTilePath_def)
    next
      case ag: (Some adjustedGoal)
      show ?thesis
      proof (cases ?as)
        case None
        with Some dims ag show ?thesis by (simp add: findTilePath_def)
      next
        case as: (Some adjustedStart)
        show ?thesis
        proof (cases "adjustedStart = adjustedGoal")
          case True
          with Some dims ag as show ?thesis by (simp add: findTilePath_def)
        next
          case False
          from searchLoop_total [OF inv] obtain r where
            "searchLoop md adjustedGoal (tilesX * tilesY * 2)
               \<lparr>openSet = heap_insert heap_empty adjustedStart (heuristic adjustedStart adjustedGoal),
                closedSet = {}, cameFrom = Map.empty, gScore = [adjustedStart \<mapsto> 0],
                fScore = [adjustedStart \<mapsto> heuristic adjustedStart adjustedGoal]\<rparr> 0 = Some r"
            by blast
          with Some dims ag as False show ?thesis
            by (simp add: findTilePath_def Let_def)
        qed
      qed
    qed
  qed
qed

lemma findPath_total: "\<exists>r. findPath md sx sy gx gy = Some r"
proof -
  obtain r where "findTilePath md (pixelToTile md sx sy) (pixelToTile md gx gy) = Some r"
    using findTilePath_total by blast
  then show ?thesis
    by (cases r) (simp_all add: findPath_def)
qed

section \<open>The branches of the state queue\<close>

lemma smoothLoop_total:
  "\<exists>sp. smoothLoop md pth current smoothed = Some sp \<and> (smoothed \<noteq> [] \<longrightarrow> sp \<noteq> [])"
proof (induction md pth current smoothed rule: smoothLoop.induct)
  case (1 md pth current smoothed)
  show ?case
  proof (cases "current < length pth - 1")
    case False
    then show ?thesis by (subst smoothLoop.simps) simp
  next
    case True
    obtain f where f: "findFurthest md pth current (current + 2) (current + 1) = Some f"
      using findFurthest_total by blast
    from "1.IH" [OF True f] True f show ?thesis
      by (subst smoothLoop.simps) auto
  qed
qed

lemma smoothPath_total:
  "\<exists>sp. smoothPath md pth = Some sp \<and> (pth \<noteq> [] \<longrightarrow> sp \<noteq> [])"
  using smoothLoop_total [of md pth 0 "[pth ! 0]"]
  by (auto simp: smoothPath_def)

lemma collapseQueue_nonempty: "q \<noteq> [] \<Longrightarrow> collapseQueue q \<noteq> []"
  by (induction q rule: collapseQueue.induct) auto

lemma last_withExactTarget: "last (withExactTarget sp t) = t"
  by (cases t) (auto simp: withExactTarget_def prod_eq_iff)

lemma withExactTarget_nonempty: "withExactTarget sp t \<noteq> [] \<or> sp = []"
  by (simp add: withExactTarget_def)

definition queueDue :: "real \<Rightarrow> entity \<Rightarrow> bool" where
  "queueDue now e =
     (\<not> isMoving e \<and> stateQueue e \<noteq> []
      \<and> (currentStateStartTime e = 0 \<or> MIN_STATE_DISPLAY_MS \<le> now - currentStateStartTime e))"

definition nextStateInfo :: "entity \<Rightarrow> queued" where
  "nextStateInfo e = hd (collapseQueue (stateQueue e))"

definition afterShift :: "entity \<Rightarrow> entity" where
  "afterShift e = e\<lparr>stateQueue := tl (collapseQueue (stateQueue e))\<rparr>"

definition afterRelease :: "world \<Rightarrow> entity \<Rightarrow> world" where
  "afterRelease w e =
     (if visualState e = Some CODING \<and> q_state (nextStateInfo e) \<noteq> CODING
      then releaseWorkstation w (eid e) else w)"

definition startMoving :: "entity \<Rightarrow> game_state \<Rightarrow> zone \<Rightarrow> point list \<Rightarrow> entity" where
  "startMoving e s tz newPath =
     e\<lparr>path := newPath, pathIndex := 0, targetState := Some s, targetZone := Some tz,
       isMoving := True, currentSpeed := MOVE_SPEED\<rparr>"

lemma processStateQueue_due:
  assumes "queueDue now e"
  shows "processStateQueue md now w e =
     (if Some (q_state (nextStateInfo e)) = visualState e then Some (w, afterShift e)
      else
        (case getTargetZone md (afterRelease w e) (afterShift e) (q_state (nextStateInfo e)) of
           (None, w2) \<Rightarrow> Some (w2, e\<lparr>stateQueue := collapseQueue (stateQueue e)\<rparr>)
         | (Some tz, w2) \<Rightarrow>
             (case findPath md (ex e) (ey e) (centerX tz) (centerY tz) of
                None \<Rightarrow> None
              | Some None \<Rightarrow>
                  Some (w2, startMoving (afterShift e) (q_state (nextStateInfo e)) tz
                              [(centerX tz, centerY tz)])
              | Some (Some pth) \<Rightarrow>
                  if pth = [] then
                    Some (w2, startMoving (afterShift e) (q_state (nextStateInfo e)) tz
                                [(centerX tz, centerY tz)])
                  else
                    map_option
                      (\<lambda>sp. (w2, startMoving (afterShift e) (q_state (nextStateInfo e)) tz
                                    (withExactTarget sp (centerX tz, centerY tz))))
                      (smoothPath md pth))))"
proof -
  let ?s = "q_state (nextStateInfo e)"
  from assms have ne: "collapseQueue (stateQueue e) \<noteq> []"
    by (simp add: queueDue_def collapseQueue_nonempty)
  then have hdtl: "hd (collapseQueue (stateQueue e)) # tl (collapseQueue (stateQueue e))
      = collapseQueue (stateQueue e)"
    by simp
  from assms have g: "\<not> isMoving e" "stateQueue e \<noteq> []"
    "(currentStateStartTime e \<noteq> 0 \<and> now - currentStateStartTime e < MIN_STATE_DISPLAY_MS)
       = False"
    by (auto simp: queueDue_def)
  show ?thesis
  proof (cases "Some ?s = visualState e")
    case True
    with g show ?thesis
      by (auto simp: processStateQueue_def Let_def nextStateInfo_def afterShift_def)
  next
    case False
    obtain z w2 where tz: "getTargetZone md (afterRelease w e) (afterShift e) ?s = (z, w2)"
      by (cases "getTargetZone md (afterRelease w e) (afterShift e) ?s")
    show ?thesis
    proof (cases z)
      case None
      with tz False hdtl show ?thesis
        using g by (auto simp: processStateQueue_def Let_def nextStateInfo_def afterShift_def
            afterRelease_def startMoving_def)
    next
      case (Some tzone)
      show ?thesis
      proof (cases "findPath md (ex e) (ey e) (centerX tzone) (centerY tzone)")
        case None
        with tz Some False show ?thesis
          using g by (auto simp: processStateQueue_def Let_def nextStateInfo_def afterShift_def
            afterRelease_def startMoving_def)
      next
        case fp: (Some found)
        show ?thesis
        proof (cases found)
          case None
          with tz Some False fp show ?thesis
            using g by (auto simp: processStateQueue_def Let_def nextStateInfo_def afterShift_def
            afterRelease_def startMoving_def)
        next
          case pth: (Some pth)
          show ?thesis
          proof (cases "smoothPath md pth")
            case None
            with tz Some False fp pth show ?thesis
              using g by (auto simp: processStateQueue_def Let_def nextStateInfo_def afterShift_def
            afterRelease_def startMoving_def)
          next
            case sp: (Some sp)
            with tz Some False fp pth show ?thesis
              using g by (auto simp: processStateQueue_def Let_def nextStateInfo_def afterShift_def
            afterRelease_def startMoving_def)
          qed
        qed
      qed
    qed
  qed
qed

section \<open>A one-tile fixture\<close>

text \<open>A map of a single walkable tile of 48 by 48 pixels with one zone in every
  category, an empty occupancy table, a generator that always returns one half, and a
  freshly spawned entity with one queued request.\<close>

definition demoZone :: zone where
  "demoZone = \<lparr>zid = ''desk-1'', zx = 0, zy = 0, zwidth = 48, zheight = 48,
                centerX = 30, centerY = 30, facing = Some ''away''\<rparr>"

definition demoMap :: map_data where
  "demoMap = \<lparr>map_width = 1, map_height = 1, tileWidth = 48, tileHeight = 48,
               unifiedCollisionGrid = [[False]],
               workstations = [demoZone], planningZones = [demoZone],
               thinkingZones = [demoZone], idleZones = [demoZone]\<rparr>"

definition demoWorld :: world where
  "demoWorld = \<lparr>zoneAssignments = [], entityZoneMap = [], rng = sconst (1 / 2)\<rparr>"

definition demoEntity :: entity where
  "demoEntity = \<lparr>eid = ''e1'', state = PLANNING, visualState = Some SPAWNED, targetState = None,
     ex = 24, ey = 24, path = [], pathIndex = 0, targetZone = None, isMoving = False,
     direction = DirDown, spawnTime = 1000, currentStateStartTime = 1000,
     stateQueue = [\<lparr>q_state = PLANNING, queuedAt = 1500\<rparr>],
     animationFrame = 0, animationTimer = 0, wanderZone = None, nextWanderTime = 0,
     currentSpeed = 150\<rparr>"

definition newcomer :: entity where
  "newcomer = \<lparr>eid = ''e1'', state = SPAWNED, visualState = Some SPAWNED, targetState = None,
     ex = 30, ey = 30, path = [], pathIndex = 0, targetZone = None, isMoving = False,
     direction = DirDown, spawnTime = 1000, currentStateStartTime = 1000,
     stateQueue = [\<lparr>q_state = PLANNING, queuedAt = 1500\<rparr>],
     animationFrame = 0, animationTimer = 0, wanderZone = None, nextWanderTime = 0,
     currentSpeed = 150\<rparr>"

lemma demoMap_fields:
  "map_width demoMap = 1" "map_height demoMap = 1" "tileWidth demoMap = 48"
  "tileHeight demoMap = 48" "unifiedCollisionGrid demoMap = [[False]]"
  "workstations demoMap = [demoZone]" "planningZones demoMap = [demoZone]"
  "thinkingZones demoMap = [demoZone]" "idleZones demoMap = [demoZone]"
  by (simp_all add: demoMap_def)

lemma demoZone_fields:
  "zid demoZone = ''desk-1''" "zx demoZone = 0" "zy demoZone = 0" "zwidth demoZone = 48"
  "zheight demoZone = 48" "centerX demoZone = 30" "centerY demoZone = 30"
  "facing demoZone = Some ''away''"
  by (simp_all add: demoZone_def)

lemma findTilePath_demo_same:
  "findTilePath (Some demoMap) (0, 0) (0, 0) = Some (Some [(0, 0)])"
  by (simp add: findTilePath_def getMapDimensions_def isTileWalkable_def demoMap_fields)

lemma findPath_demo: "findPath (Some demoMap) 24 24 30 30 = Some (Some [(24, 24)])"
  by (simp add: findPath_def pixelToTile_def tileToPixel_def findTilePath_demo_same
      demoMap_fields)

section \<open>The minimum display time\<close>

text \<open>
  Claim C4.  For an agent that is not moving, has a non-empty \<open>stateQueue\<close> and for
  which less than 4000 ms have elapsed since \<open>currentStateStartTime\<close>,
  \<open>processStateQueue\<close> returns and leaves the agent record and the occupancy tables
  unchanged: no queued state is applied before the minimum display time is over.
  \<open>currentStateStartTime\<close> is a reading of \<open>Date.now()\<close> (\<open>createEntity\<close> and
  \<open>arriveAtDestination\<close> are its only writers), a number of milliseconds since 1970
  and so never 0; the code tests it for truthiness before it compares.
\<close>

theorem minimum_display_noop:
  assumes "\<not> isMoving e" and "stateQueue e \<noteq> []"
    and "currentStateStartTime e \<noteq> 0"
    and "now - currentStateStartTime e < 4000"
  shows "processStateQueue md now w e = Some (w, e)"
  using assms by (simp add: processStateQueue_def MIN_STATE_DISPLAY_MS_def)

theorem minimum_display_noop_witness:
  "processStateQueue (Some demoMap) 2000 demoWorld demoEntity = Some (demoWorld, demoEntity)"
  by (rule minimum_display_noop) (simp_all add: demoEntity_def)

section \<open>Path smoothing\<close>

definition wideZone :: zone where
  "wideZone = \<lparr>zid = ''lounge-1'', zx = 0, zy = 0, zwidth = 144, zheight = 48,
                centerX = 72, centerY = 24, facing = None\<rparr>"

definition corridorMap :: map_data where
  "corridorMap = \<lparr>map_width = 3, map_height = 1, tileWidth = 48, tileHeight = 48,
     unifiedCollisionGrid = [[False, False, False]],
     workstations = [demoZone], planningZones = [demoZone],
     thinkingZones = [wideZone], idleZones = [wideZone]\<rparr>"

lemma corridorMap_fields:
  "map_width corridorMap = 3" "map_height corridorMap = 1" "tileWidth corridorMap = 48"
  "tileHeight corridorMap = 48" "unifiedCollisionGrid corridorMap = [[False, False, False]]"
  by (simp_all add: corridorMap_def)

text \<open>
  Claim C6.  For a path of centres of walkable tiles, each 4-adjacent to the next,
  \<open>smoothPath\<close> returns a path with the same first and last point and at most as many
  points, in which the rasterised tile line between every two consecutive waypoints
  lies on walkable cells only; and every path of fewer than 3 points is returned
  unchanged.  Tiles have a positive width and height.
\<close>

theorem smoothPath_contract:
  assumes "0 < tileWidth m" "0 < tileHeight m"
    and "ts \<noteq> []"
    and "\<forall>t \<in> set ts. isTileWalkable (Some m) (fst t) (snd t)"
    and "successively adjacent4 ts"
  shows "(\<exists>sp. smoothPath (Some m) (tileCenters (Some m) ts) = Some sp
           \<and> sp \<noteq> []
           \<and> hd sp = hd (tileCenters (Some m) ts)
           \<and> last sp = last (tileCenters (Some m) ts)
           \<and> length sp \<le> length (tileCenters (Some m) ts)
           \<and> successively (clearLine (Some m)) sp)
         \<and> (\<forall>q. length q < 3 \<longrightarrow> smoothPath (Some m) q = Some q)"
proof (rule conjI)
  show "\<forall>q. length q < 3 \<longrightarrow> smoothPath (Some m) q = Some q"
    by (simp add: smoothPath_def)
next
  let ?md = "Some m"
  let ?p = "tileCenters ?md ts"
  have len: "length ?p = length ts" by (simp add: tileCenters_def)
  have adj: "\<forall>i. Suc i < length ?p \<longrightarrow> clearLine ?md (?p ! i) (?p ! Suc i)"
  proof (intro allI impI)
    fix i assume i: "Suc i < length ?p"
    then have "adjacent4 (ts ! i) (ts ! Suc i)"
      using assms(5) by (simp add: successively_conv_nth len)
    moreover have "isTileWalkable ?md (fst (ts ! i)) (snd (ts ! i))"
      "isTileWalkable ?md (fst (ts ! Suc i)) (snd (ts ! Suc i))"
      using assms(4) i by (simp_all add: len)
    ultimately show "clearLine ?md (?p ! i) (?p ! Suc i)"
      using i clearLine_adjacent [OF assms(1,2)] by (simp add: tileCenters_def)
  qed
  show "\<exists>sp. smoothPath (Some m) (tileCenters (Some m) ts) = Some sp
           \<and> sp \<noteq> []
           \<and> hd sp = hd (tileCenters (Some m) ts)
           \<and> last sp = last (tileCenters (Some m) ts)
           \<and> length sp \<le> length (tileCenters (Some m) ts)
           \<and> successively (clearLine (Some m)) sp"
  proof (cases "length ts < 3")
    case True
    have "successively (clearLine ?md) ?p"
      using adj by (simp add: successively_conv_nth)
    with True assms(3) show ?thesis
      by (simp add: smoothPath_def len) (simp add: tileCenters_def)
  next
    case False
    from assms(3) have ne: "?p \<noteq> []" by (simp add: tileCenters_def)
    have "\<exists>sp. smoothLoop ?md ?p 0 [?p ! 0] = Some sp \<and> hd sp = hd [?p ! 0]
       \<and> last sp = last ?p \<and> successively (clearLine ?md) sp \<and> length sp \<le> length ?p \<and> sp \<noteq> []"
      using ne by (intro smoothLoop_props [OF adj]) auto
    with False ne show ?thesis
      by (auto simp: smoothPath_def len hd_conv_nth)
  qed
qed

theorem smoothPath_contract_witness:
  "0 < tileWidth corridorMap \<and> 0 < tileHeight corridorMap
   \<and> (\<exists>sp. smoothPath (Some corridorMap)
              (tileCenters (Some corridorMap) [(0, 0), (1, 0), (2, 0)]) = Some sp
         \<and> hd sp = (24, 24) \<and> last sp = (120, 24) \<and> length sp \<le> 3
         \<and> successively (clearLine (Some corridorMap)) sp)"
proof -
  have "(\<exists>sp. smoothPath (Some corridorMap)
              (tileCenters (Some corridorMap) [(0, 0), (1, 0), (2, 0)]) = Some sp
           \<and> sp \<noteq> []
           \<and> hd sp = hd (tileCenters (Some corridorMap) [(0, 0), (1, 0), (2, 0)])
           \<and> last sp = last (tileCenters (Some corridorMap) [(0, 0), (1, 0), (2, 0)])
           \<and> length sp \<le> length (tileCenters (Some corridorMap) [(0, 0), (1, 0), (2, 0)])
           \<and> successively (clearLine (Some corridorMap)) sp)
         \<and> (\<forall>q. length q < 3 \<longrightarrow> smoothPath (Some corridorMap) q = Some q)"
    by (rule smoothPath_contract)
      (simp_all add: corridorMap_fields isTileWalkable_def adjacent4_def)
  then obtain sp where
    "smoothPath (Some corridorMap)
       (tileCenters (Some corridorMap) [(0, 0), (1, 0), (2, 0)]) = Some sp"
    "hd sp = hd (tileCenters (Some corridorMap) [(0, 0), (1, 0), (2, 0)])"
    "last sp = last (tileCenters (Some corridorMap) [(0, 0), (1, 0), (2, 0)])"
    "length sp \<le> length (tileCenters (Some corridorMap) [(0, 0), (1, 0), (2, 0)])"
    "successively (clearLine (Some corridorMap)) sp"
    by blast
  then show ?thesis
    by (simp add: tileCenters_def tileToPixel_def corridorMap_fields)
qed

section \<open>No path: the direct-movement fallback\<close>

definition farZone :: zone where
  "farZone = \<lparr>zid = ''board-1'', zx = 96, zy = 0, zwidth = 48, zheight = 48,
               centerX = 120, centerY = 24, facing = Some ''away''\<rparr>"

definition wallMap :: map_data where
  "wallMap = \<lparr>map_width = 3, map_height = 1, tileWidth = 48, tileHeight = 48,
     unifiedCollisionGrid = [[False, True, False]],
     workstations = [demoZone], planningZones = [farZone],
     thinkingZones = [demoZone], idleZones = [demoZone]\<rparr>"

lemma processStateQueue_total: "\<exists>w' e'. processStateQueue md now w e = Some (w', e')"
proof (cases "queueDue now e")
  case False
  then show ?thesis
    by (auto simp: processStateQueue_def queueDue_def Let_def)
next
  case True
  let ?s = "q_state (nextStateInfo e)"
  obtain z w2 where tz: "getTargetZone md (afterRelease w e) (afterShift e) ?s = (z, w2)"
    by (cases "getTargetZone md (afterRelease w e) (afterShift e) ?s")
  show ?thesis
  proof (cases z)
    case None
    with tz show ?thesis by (simp add: processStateQueue_due [OF True])
  next
    case (Some tzone)
    obtain found where fp: "findPath md (ex e) (ey e) (centerX tzone) (centerY tzone) = Some found"
      using findPath_total by blast
    show ?thesis
    proof (cases found)
      case None
      with tz Some fp show ?thesis by (simp add: processStateQueue_due [OF True])
    next
      case pth: (Some pth)
      obtain sp where "smoothPath md pth = Some sp" using smoothPath_total by blast
      with tz Some fp pth show ?thesis by (simp add: processStateQueue_due [OF True])
    qed
  qed
qed

lemma processStateQueue_outcomes:
  assumes due: "queueDue now e"
  shows "(Some (q_state (nextStateInfo e)) = visualState e
          \<and> processStateQueue md now w e = Some (w, afterShift e))
       \<or> (Some (q_state (nextStateInfo e)) \<noteq> visualState e
          \<and> (\<exists>w2. getTargetZone md (afterRelease w e) (afterShift e) (q_state (nextStateInfo e))
                     = (None, w2)
                \<and> processStateQueue md now w e
                     = Some (w2, e\<lparr>stateQueue := collapseQueue (stateQueue e)\<rparr>)))
       \<or> (Some (q_state (nextStateInfo e)) \<noteq> visualState e
          \<and> (\<exists>tz w2 p. getTargetZone md (afterRelease w e) (afterShift e)
                          (q_state (nextStateInfo e)) = (Some tz, w2)
                \<and> p \<noteq> [] \<and> last p = (centerX tz, centerY tz)
                \<and> processStateQueue md now w e
                     = Some (w2, startMoving (afterShift e) (q_state (nextStateInfo e)) tz p)))"
proof (cases "Some (q_state (nextStateInfo e)) = visualState e")
  case True
  then show ?thesis by (simp add: processStateQueue_due [OF due])
next
  case False
  let ?s = "q_state (nextStateInfo e)"
  obtain z w2 where tz: "getTargetZone md (afterRelease w e) (afterShift e) ?s = (z, w2)"
    by (cases "getTargetZone md (afterRelease w e) (afterShift e) ?s")
  show ?thesis
  proof (cases z)
    case None
    with tz False show ?thesis by (simp add: processStateQueue_due [OF due])
  next
    case (Some tzone)
    let ?t = "(centerX tzone, centerY tzone)"
    have "\<exists>p. p \<noteq> [] \<and> last p = ?t
        \<and> processStateQueue md now w e = Some (w2, startMoving (afterShift e) ?s tzone p)"
    proof -
      obtain found where fp: "findPath md (ex e) (ey e) (centerX tzone) (centerY tzone) = Some found"
        using findPath_total by blast
      show ?thesis
      proof (cases found)
        case None
        with tz Some fp False
        have "processStateQueue md now w e = Some (w2, startMoving (afterShift e) ?s tzone [?t])"
          by (simp add: processStateQueue_due [OF due])
        then show ?thesis by (intro exI [of _ "[?t]"]) simp
      next
        case pth: (Some pth)
        show ?thesis
        proof (cases "pth = []")
          case True
          with tz Some fp False pth
          have "processStateQueue md now w e = Some (w2, startMoving (afterShift e) ?s tzone [?t])"
            by (simp add: processStateQueue_due [OF due])
          then show ?thesis by (intro exI [of _ "[?t]"]) simp
        next
          case ne: False
          obtain sp where sp: "smoothPath md pth = Some sp" "sp \<noteq> []"
            using smoothPath_total [of md pth] ne by blast
          with tz Some fp False pth ne
          have "processStateQueue md now w e
              = Some (w2, startMoving (afterShift e) ?s tzone (withExactTarget sp ?t))"
            by (simp add: processStateQueue_due [OF due])
          moreover have "withExactTarget sp ?t \<noteq> []"
            using sp(2) by (simp add: withExactTarget_def)
          ultimately show ?thesis
            by (intro exI [of _ "withExactTarget sp ?t"]) (simp add: last_withExactTarget)
        qed
      qed
    qed
    with tz Some False show ?thesis by blast
  qed
qed

text \<open>
  Claim C2, as the code has it.  When the popped entry resolves to a target zone and
  the pathfinder returns no path (\<open>null\<close>), \<open>processStateQueue\<close> does not requeue the
  entry: it falls back to direct movement.  It installs the one-point path made of the
  zone's \<open>(centerX, centerY)\<close>, resets \<open>pathIndex\<close>, sets \<open>targetState\<close>, \<open>targetZone\<close>
  and full speed, and sets \<open>isMoving\<close>; the queue keeps only what was behind the popped
  entry.
\<close>

theorem no_path_direct_fallback:
  assumes "queueDue now e"
    and "Some (q_state (nextStateInfo e)) \<noteq> visualState e"
    and "getTargetZone md (afterRelease w e) (afterShift e) (q_state (nextStateInfo e))
           = (Some tz, w2)"
    and "findPath md (ex e) (ey e) (centerX tz) (centerY tz) = Some None"
  shows "processStateQueue md now w e =
           Some (w2, (afterShift e)\<lparr>path := [(centerX tz, centerY tz)], pathIndex := 0,
                       targetState := Some (q_state (nextStateInfo e)), targetZone := Some tz,
                       isMoving := True, currentSpeed := MOVE_SPEED\<rparr>)"
  using assms by (simp add: processStateQueue_due startMoving_def)

lemma findPath_wall: "findPath (Some wallMap) 30 30 120 24 = Some None"
  by code_simp

lemma newcomer_due: "queueDue 6000 newcomer"
  by code_simp

lemma newcomer_next: "nextStateInfo newcomer = \<lparr>q_state = PLANNING, queuedAt = 1500\<rparr>"
  by (simp add: nextStateInfo_def newcomer_def)

lemma newcomer_shift: "afterShift newcomer = newcomer\<lparr>stateQueue := []\<rparr>"
  by (simp add: afterShift_def newcomer_def)

lemma wall_zone:
  "getTargetZone (Some wallMap) (afterRelease demoWorld newcomer) (afterShift newcomer) PLANNING
     = (Some farZone, demoWorld)"
  by (simp add: getTargetZone_def getZonesForState_def getZonesByType_def nextStateInfo_def
      newcomer_def wallMap_def random_def demoWorld_def randomIndex_def afterRelease_def)

theorem no_path_direct_fallback_witness:
  "processStateQueue (Some wallMap) 6000 demoWorld newcomer =
     Some (demoWorld,
           (afterShift newcomer)\<lparr>path := [(centerX farZone, centerY farZone)], pathIndex := 0,
              targetState := Some (q_state (nextStateInfo newcomer)),
              targetZone := Some farZone, isMoving := True, currentSpeed := MOVE_SPEED\<rparr>)"
proof (rule no_path_direct_fallback)
  show "queueDue 6000 newcomer" by (rule newcomer_due)
  show "Some (q_state (nextStateInfo newcomer)) \<noteq> visualState newcomer"
    by (simp add: newcomer_next) (simp add: newcomer_def)
  show "getTargetZone (Some wallMap) (afterRelease demoWorld newcomer) (afterShift newcomer)
     (q_state (nextStateInfo newcomer)) = (Some farZone, demoWorld)"
    using wall_zone by (simp add: newcomer_next)
  show "findPath (Some wallMap) (ex newcomer) (ey newcomer) (centerX farZone) (centerY farZone)
     = Some None"
    using findPath_wall by (simp add: newcomer_def farZone_def)
qed

text \<open>
  Claim C2 as stated fails on a corridor whose middle tile is blocked: the planning zone
  beyond the wall cannot be reached, the pathfinder returns \<open>null\<close>, and the entity
  starts moving straight to the zone centre with an empty queue.
\<close>

theorem no_path_requeue_counterexample:
  "processStateQueue (Some wallMap) 6000 demoWorld newcomer =
     Some (demoWorld,
           newcomer\<lparr>stateQueue := [], path := [(120, 24)], pathIndex := 0,
              targetState := Some PLANNING, targetZone := Some farZone,
              isMoving := True, currentSpeed := 150\<rparr>)"
proof -
  have v: "Some PLANNING \<noteq> visualState newcomer" by (simp add: newcomer_def)
  have p: "findPath (Some wallMap) (ex newcomer) (ey newcomer) 120 24 = Some None"
    using findPath_wall by (simp add: newcomer_def)
  show ?thesis
    using v p wall_zone
    by (simp add: processStateQueue_due [OF newcomer_due] newcomer_next newcomer_shift
        startMoving_def farZone_def MOVE_SPEED_def)
qed

section \<open>Collapsing duplicate requests\<close>

lemma collapseQueue_run:
  "\<forall>a \<in> set run. q_state a = s \<Longrightarrow> q_state b = s \<Longrightarrow>
     rest = [] \<or> q_state (hd rest) \<noteq> s \<Longrightarrow>
     collapseQueue (run @ b # rest) = b # rest"
proof (induction run)
  case Nil
  then show ?case by (cases rest) simp_all
next
  case (Cons a run)
  then have ih: "collapseQueue (run @ b # rest) = b # rest" and a: "q_state a = s"
    by simp_all
  show ?case
  proof (cases run)
    case Nil
    with ih a Cons.prems(2) show ?thesis by simp
  next
    case (Cons c cs)
    with Cons.prems(1) have "q_state c = s" by simp
    with ih a Cons show ?thesis by simp
  qed
qed

lemma collapseQueue_front:
  assumes "run \<noteq> []" and "\<forall>a \<in> set run. q_state a = s"
    and "rest = [] \<or> q_state (hd rest) \<noteq> s"
  shows "collapseQueue (run @ rest) = last run # rest"
proof -
  from assms(1) obtain r b where run: "run = r @ [b]"
    by (cases run rule: rev_cases) auto
  with assms(2) have b: "q_state b = s" and r: "\<forall>a \<in> set r. q_state a = s"
    by auto
  from collapseQueue_run [OF r b assms(3)] run show ?thesis by simp
qed

text \<open>
  Claim C5, as the code has it.  When \<open>processStateQueue\<close> processes a non-empty queue,
  only the run of equal states at the front of \<open>stateQueue\<close> is collapsed; the entry
  that survives and is popped is the last of that run (the latest \<open>queuedAt\<close>), and
  the entries behind the leading run stay as they are.  After the call the queue is
  that rest, or the popped entry in front of it when no zone could be resolved.
\<close>

theorem leading_run_collapsed:
  assumes "queueDue now e"
    and "stateQueue e = run @ rest" and "run \<noteq> []"
    and "\<forall>a \<in> set run. q_state a = s"
    and "rest = [] \<or> q_state (hd rest) \<noteq> s"
  shows "nextStateInfo e = last run \<and> stateQueue (afterShift e) = rest
    \<and> (\<exists>w' e'. processStateQueue md now w e = Some (w', e')
          \<and> (stateQueue e' = rest \<or> stateQueue e' = last run # rest))"
proof -
  have c: "collapseQueue (stateQueue e) = last run # rest"
    using collapseQueue_front [OF assms(3-5)] assms(2) by simp
  then have n: "nextStateInfo e = last run" and a: "stateQueue (afterShift e) = rest"
    by (simp_all add: nextStateInfo_def afterShift_def)
  from processStateQueue_outcomes [OF assms(1), of md w]
  have "\<exists>w' e'. processStateQueue md now w e = Some (w', e')
          \<and> (stateQueue e' = rest \<or> stateQueue e' = last run # rest)"
  proof (elim disjE conjE exE)
    assume "processStateQueue md now w e = Some (w, afterShift e)"
    with a show ?thesis by simp
  next
    fix w2
    assume "processStateQueue md now w e
      = Some (w2, e\<lparr>stateQueue := collapseQueue (stateQueue e)\<rparr>)"
    with c show ?thesis by simp
  next
    fix tz w2 p
    assume "processStateQueue md now w e
      = Some (w2, startMoving (afterShift e) (q_state (nextStateInfo e)) tz p)"
    with a show ?thesis by (simp add: startMoving_def)
  qed
  with n a show ?thesis by blast
qed

definition busyWorld :: world where
  "busyWorld = \<lparr>zoneAssignments = [(''desk-1'', ''e2'')],
                 entityZoneMap = [(''e2:workstations'', ''desk-1'')], rng = sconst (1 / 2)\<rparr>"

definition burstQueue :: "queued list" where
  "burstQueue = [\<lparr>q_state = CODING, queuedAt = 1500\<rparr>, \<lparr>q_state = CODING, queuedAt = 1600\<rparr>,
                 \<lparr>q_state = PLANNING, queuedAt = 1700\<rparr>, \<lparr>q_state = PLANNING, queuedAt = 1800\<rparr>]"

lemma burst_due: "queueDue 6000 (newcomer\<lparr>stateQueue := burstQueue\<rparr>)"
  by code_simp

theorem leading_run_collapsed_witness:
  "nextStateInfo (newcomer\<lparr>stateQueue := burstQueue\<rparr>) = \<lparr>q_state = CODING, queuedAt = 1600\<rparr>
   \<and> stateQueue (afterShift (newcomer\<lparr>stateQueue := burstQueue\<rparr>))
       = [\<lparr>q_state = PLANNING, queuedAt = 1700\<rparr>, \<lparr>q_state = PLANNING, queuedAt = 1800\<rparr>]
   \<and> (\<exists>w' e'. processStateQueue (Some demoMap) 6000 busyWorld
                  (newcomer\<lparr>stateQueue := burstQueue\<rparr>) = Some (w', e')
          \<and> (stateQueue e' = [\<lparr>q_state = PLANNING, queuedAt = 1700\<rparr>,
                              \<lparr>q_state = PLANNING, queuedAt = 1800\<rparr>]
              \<or> stateQueue e' = [\<lparr>q_state = CODING, queuedAt = 1600\<rparr>,
                    \<lparr>q_state = PLANNING, queuedAt = 1700\<rparr>, \<lparr>q_state = PLANNING, queuedAt = 1800\<rparr>]))"
  using leading_run_collapsed [OF burst_due,
      of "[\<lparr>q_state = CODING, queuedAt = 1500\<rparr>, \<lparr>q_state = CODING, queuedAt = 1600\<rparr>]"
         "[\<lparr>q_state = PLANNING, queuedAt = 1700\<rparr>, \<lparr>q_state = PLANNING, queuedAt = 1800\<rparr>]"
         CODING "Some demoMap" busyWorld]
  by (simp add: burstQueue_def)

text \<open>
  Claim C5 as stated fails on the queue CODING, CODING, PLANNING, PLANNING while the only
  desk is taken: the entry put back is the second CODING request (queued at 1600, not
  the first, queued at 1500), and the two PLANNING requests behind it are both still
  queued.
\<close>

theorem every_run_keep_first_counterexample:
  "processStateQueue (Some demoMap) 6000 busyWorld (newcomer\<lparr>stateQueue := burstQueue\<rparr>) =
     Some (busyWorld,
           newcomer\<lparr>stateQueue := [\<lparr>q_state = CODING, queuedAt = 1600\<rparr>,
              \<lparr>q_state = PLANNING, queuedAt = 1700\<rparr>, \<lparr>q_state = PLANNING, queuedAt = 1800\<rparr>]\<rparr>)"
proof -
  have n: "nextStateInfo (newcomer\<lparr>stateQueue := burstQueue\<rparr>)
      = \<lparr>q_state = CODING, queuedAt = 1600\<rparr>"
    by (simp add: nextStateInfo_def burstQueue_def)
  have z: "getTargetZone (Some demoMap) (afterRelease busyWorld (newcomer\<lparr>stateQueue := burstQueue\<rparr>))
      (afterShift (newcomer\<lparr>stateQueue := burstQueue\<rparr>)) CODING = (None, busyWorld)"
    by (simp add: getTargetZone_def getEntityWorkstation_def getAssignedZone_def
        assignWorkstation_def getZonesByType_def demoMap_fields demoZone_fields afterRelease_def
        afterShift_def newcomer_def busyWorld_def assignmentKey_def zoneTypeName_def n)
  have v: "Some CODING \<noteq> visualState (newcomer\<lparr>stateQueue := burstQueue\<rparr>)"
    by (simp add: newcomer_def)
  show ?thesis
    using z v by (simp add: processStateQueue_due [OF burst_due] n) (simp add: burstQueue_def)
qed

section \<open>Wandering: the shape of a call\<close>

definition sameTables :: "world \<Rightarrow> world \<Rightarrow> bool" where
  "sameTables w w' =
     (zoneAssignments w' = zoneAssignments w \<and> entityZoneMap w' = entityZoneMap w
      \<and> (\<exists>k. rng w' = sdrop k (rng w)))"

lemma sameTables_refl: "sameTables w w"
  unfolding sameTables_def by (auto intro: exI [of _ 0])

lemma sameTables_trans: "sameTables w w1 \<Longrightarrow> sameTables w1 w2 \<Longrightarrow> sameTables w w2"
proof -
  assume a: "sameTables w w1" and b: "sameTables w1 w2"
  from a obtain k where k: "rng w1 = sdrop k (rng w)" by (auto simp: sameTables_def)
  from b obtain j where j: "rng w2 = sdrop j (rng w1)" by (auto simp: sameTables_def)
  have "rng w2 = sdrop (k + j) (rng w)" by (simp add: j k sdrop_add)
  with a b show ?thesis unfolding sameTables_def by auto
qed

lemma sameTables_random: "sameTables w (snd (random w))"
  unfolding sameTables_def random_def by (auto intro: exI [of _ 1])

lemma sameTables_point: "sameTables w (snd (getRandomPointInZone z p w))"
proof -
  have "snd (getRandomPointInZone z p w) = snd (random (snd (random w)))"
    by (simp add: getRandomPointInZone_def split_def Let_def)
  then show ?thesis
    using sameTables_trans [OF sameTables_random sameTables_random] by simp
qed








section \<open>Rescheduling the wander\<close>



section \<open>The exact destination\<close>






lemma demoWorld_rng: "demoWorld\<lparr>rng := sconst (1 / 2)\<rparr> = demoWorld"
  by (simp add: demoWorld_def)




lemma processStateQueue_not_due:
  "\<not> queueDue now e \<Longrightarrow> processStateQueue md now w e = Some (w, e)"
  by (auto simp: processStateQueue_def queueDue_def Let_def)








section \<open>Leaving CODING releases the workstation\<close>

lemma releaseWorkstation_held:
  assumes "map_of (entityZoneMap w) (assignmentKey entityId Workstations) = Some wsid"
    and "wsid \<noteq> []"
  shows "releaseWorkstation w entityId =
     w\<lparr>zoneAssignments := AList.delete wsid (zoneAssignments w),
       entityZoneMap := AList.delete (assignmentKey entityId Workstations) (entityZoneMap w)\<rparr>"
  using assms by (simp add: releaseWorkstation_def)

lemma releaseWorkstation_idem:
  "releaseWorkstation (releaseWorkstation w entityId) entityId = releaseWorkstation w entityId"
proof (cases "map_of (entityZoneMap w) (assignmentKey entityId Workstations)")
  case None
  then show ?thesis by (simp add: releaseWorkstation_def)
next
  case (Some wsid)
  show ?thesis
  proof (cases "wsid = []")
    case True
    with Some show ?thesis by (simp add: releaseWorkstation_def)
  next
    case False
    have "map_of (AList.delete (assignmentKey entityId Workstations) (entityZoneMap w))
        (assignmentKey entityId Workstations) = None"
      by (simp add: delete_conv')
    then show ?thesis
      by (simp add: releaseWorkstation_held [OF Some False]) (simp add: releaseWorkstation_def)
  qed
qed

lemma getTargetZone_sameTables:
  assumes "s \<noteq> CODING"
  shows "sameTables w (snd (getTargetZone md w e s))"
proof (cases "getZonesForState md s = []")
  case True
  with assms show ?thesis by (simp add: getTargetZone_def sameTables_refl)
next
  case False
  show ?thesis
  proof (cases "s = THINKING \<or> s = IDLE")
    case True
    with assms False have "snd (getTargetZone md w e s) =
        snd (getRandomPointInZone
               (getZonesForState md s ! randomIndex (fst (random w)) (getZonesForState md s)) 8
               (snd (random w)))"
      by (simp add: getTargetZone_def Let_def split_def)
    then show ?thesis
      using sameTables_trans [OF sameTables_random sameTables_point] by simp
  next
    case ti: False
    with assms False have "snd (getTargetZone md w e s) = snd (random w)"
      by (simp add: getTargetZone_def Let_def split_def)
    then show ?thesis using sameTables_random by simp
  qed
qed

text \<open>
  Claim C8.  For an agent with \<open>visualState\<close> CODING whose popped queue entry requests
  another state, \<open>processStateQueue\<close> returns, and afterwards the workstation id the
  agent held reports unoccupied and the agent has no workstation.  The release comes
  before the zone is resolved and the path computed: the tables after the call are
  those of \<open>releaseWorkstation\<close>, and the call gives the same result as a call made
  after releasing.  The held id is a non-empty string, as every zone id of the map
  is (the map parser names a zone \<open>obj.name || `workstation-${obj.id}`\<close>).
\<close>

theorem release_on_leaving_coding:
  assumes due: "queueDue now e"
    and vis: "visualState e = Some CODING"
    and nxt: "q_state (nextStateInfo e) \<noteq> CODING"
    and held: "map_of (entityZoneMap w) (assignmentKey (eid e) Workstations) = Some wsid"
    and ne: "wsid \<noteq> []"
  shows "\<exists>w' e'. processStateQueue md now w e = Some (w', e')
           \<and> \<not> isZoneOccupied w' wsid
           \<and> getEntityWorkstation md w' (eid e) = None
           \<and> zoneAssignments w' = zoneAssignments (releaseWorkstation w (eid e))
           \<and> entityZoneMap w' = entityZoneMap (releaseWorkstation w (eid e))
           \<and> processStateQueue md now (releaseWorkstation w (eid e)) e = Some (w', e')"
proof -
  let ?wr = "releaseWorkstation w (eid e)"
  let ?s = "q_state (nextStateInfo e)"
  from vis nxt have ar: "afterRelease w e = ?wr" "afterRelease ?wr e = ?wr"
    by (simp_all add: afterRelease_def releaseWorkstation_idem)
  from vis nxt have neq: "Some ?s \<noteq> visualState e" by auto
  have same: "processStateQueue md now ?wr e = processStateQueue md now w e"
    using neq by (simp add: processStateQueue_due [OF due] ar)
  have free: "map_of (zoneAssignments ?wr) wsid = None"
    "map_of (entityZoneMap ?wr) (assignmentKey (eid e) Workstations) = None"
    by (simp_all add: releaseWorkstation_held [OF held ne] delete_conv')
  have st: "sameTables ?wr (snd (getTargetZone md ?wr (afterShift e) ?s))"
    using getTargetZone_sameTables [OF nxt] .
  from processStateQueue_outcomes [OF due, of md w] neq obtain w' e' where
    r: "processStateQueue md now w e = Some (w', e')" and
    w': "w' = snd (getTargetZone md ?wr (afterShift e) ?s)"
    by (auto simp: ar)
  from st w' have t: "zoneAssignments w' = zoneAssignments ?wr" "entityZoneMap w' = entityZoneMap ?wr"
    by (simp_all add: sameTables_def)
  with free have "\<not> isZoneOccupied w' wsid" "getEntityWorkstation md w' (eid e) = None"
    by (simp_all add: isZoneOccupied_def getEntityWorkstation_def getAssignedZone_def)
  with r t same show ?thesis by simp
qed

definition codingWorld :: world where
  "codingWorld = \<lparr>zoneAssignments = [(''desk-1'', ''e1'')],
                   entityZoneMap = [(''e1:workstations'', ''desk-1'')], rng = sconst (1 / 2)\<rparr>"

definition coder :: entity where
  "coder = \<lparr>eid = ''e1'', state = SPAWNED, visualState = Some CODING, targetState = None,
     ex = 30, ey = 30, path = [], pathIndex = 0, targetZone = None, isMoving = False,
     direction = DirUp, spawnTime = 1000, currentStateStartTime = 9000,
     stateQueue = [\<lparr>q_state = PLANNING, queuedAt = 12000\<rparr>],
     animationFrame = 0, animationTimer = 0, wanderZone = None, nextWanderTime = 0,
     currentSpeed = 150\<rparr>"

theorem release_on_leaving_coding_witness:
  "\<exists>w' e'. processStateQueue (Some demoMap) 14000 codingWorld coder = Some (w', e')
           \<and> \<not> isZoneOccupied w' ''desk-1''
           \<and> getEntityWorkstation (Some demoMap) w' (eid coder) = None
           \<and> zoneAssignments w' = zoneAssignments (releaseWorkstation codingWorld (eid coder))
           \<and> entityZoneMap w' = entityZoneMap (releaseWorkstation codingWorld (eid coder))
           \<and> processStateQueue (Some demoMap) 14000 (releaseWorkstation codingWorld (eid coder)) coder
                = Some (w', e')"
proof (rule release_on_leaving_coding)
  show "queueDue 14000 coder" by code_simp
  show "visualState coder = Some CODING" by (simp add: coder_def)
  show "q_state (nextStateInfo coder) \<noteq> CODING" by (simp add: nextStateInfo_def coder_def)
  show "map_of (entityZoneMap codingWorld) (assignmentKey (eid coder) Workstations) = Some ''desk-1''"
    by (simp add: codingWorld_def coder_def assignmentKey_def zoneTypeName_def)
  show "''desk-1'' \<noteq> []" by simp
qed


section \<open>A wander restarts the minimum display time\<close>























section \<open>A transition needs a zone\<close>

lemma getTargetZone_needs_zone:
  assumes "getTargetZone md w e s = (Some tz, w2)"
  shows "getZonesForState md s \<noteq> []"
proof (cases "s = CODING")
  case False
  with assms show ?thesis
    by (auto simp: getTargetZone_def Let_def split: if_splits)
next
  case True
  have z: "getZonesForState md CODING = getZonesByType md Workstations"
    by (simp add: getZonesForState_def)
  show ?thesis
  proof
    assume "getZonesForState md s = []"
    with True z have "getZonesByType md Workstations = []" by simp
    then have "getTargetZone md w e CODING = (None, w)"
      by (simp add: getTargetZone_def getEntityWorkstation_def getAssignedZone_def
          assignWorkstation_def split: option.splits)
    with assms True show False by simp
  qed
qed

lemma transition_needs_zone:
  assumes "processStateQueue md now w e = Some (w', e')" and "\<not> isMoving e" and "isMoving e'"
    and "targetState e' = Some s"
  shows "getZonesForState md s \<noteq> []"
proof (cases "queueDue now e")
  case False
  with assms show ?thesis by (simp add: processStateQueue_not_due)
next
  case True
  from processStateQueue_outcomes [OF True, of md w] assms show ?thesis
    by (auto simp: afterShift_def startMoving_def dest: getTargetZone_needs_zone)
qed

end
